theory Spec2Isabelle
  imports Complex_Main "HOL-Library.Word"
begin

section \<open>Data model\<close>

text \<open>
  The module \<^verbatim>\<open>iota/crypto/types.py\<close> defines the classes \<^verbatim>\<open>Seed\<close> and
  \<^verbatim>\<open>SigningKey\<close>, both subclasses of \<^verbatim>\<open>TryteString\<close>. A trit is a Python int, and
  entropy comes as bytes.
\<close>

type_synonym trit = int
type_synonym byte = "8 word"

text \<open>
  Modelled from the spec: the representation of trytes belongs to \<^verbatim>\<open>TryteString\<close>, which
  is not part of the sources at hand; a tryte is a group of three trits.
\<close>

type_synonym tryte = "trit \<times> trit \<times> trit"

text \<open>The exceptions that the two classes raise or let through.\<close>

datatype error = ValueError | OverflowError | EntropySourceFailure

text \<open>
  Modelled from the spec: the constant \<^verbatim>\<open>HASH_LENGTH\<close> is imported from
  \<^verbatim>\<open>iota.crypto\<close>, which is not part of the sources at hand; the width of one hash is
  243 trits.
\<close>

definition HASH_LENGTH :: nat where
  "HASH_LENGTH = 243"

text \<open>\<^verbatim>\<open>SigningKey.BLOCK_LEN = 2187\<close>, in trytes.\<close>

definition BLOCK_LEN :: nat where
  "BLOCK_LEN = 2187"

subsection \<open>Python lists\<close>

text \<open>
  \<^verbatim>\<open>xs[a:b]\<close> and \<^verbatim>\<open>xs[a:b] = ys\<close> for bounds that are not negative. Python clamps both
  bounds to the length of the list, and a stop before the start counts as the start;
  \<open>take\<close> and \<open>drop\<close> clamp in the same way.
\<close>

definition py_slice :: "'a list \<Rightarrow> nat \<Rightarrow> nat \<Rightarrow> 'a list" where
  "py_slice xs a b = take (b - a) (drop a xs)"

definition py_slice_assign :: "'a list \<Rightarrow> nat \<Rightarrow> nat \<Rightarrow> 'a list \<Rightarrow> 'a list" where
  "py_slice_assign xs a b ys = take a xs @ ys @ drop (max a b) xs"

subsection \<open>The sponge\<close>

text \<open>
  Modelled from the spec: the class \<^verbatim>\<open>Curl\<close> is imported from \<^verbatim>\<open>iota.crypto\<close> and is
  not part of the sources at hand. It is a stateful object, constructed by \<^verbatim>\<open>Curl()\<close>;
  \<^verbatim>\<open>absorb(trits)\<close> ingests a sequence of trits into the internal state, and
  \<^verbatim>\<open>squeeze(trits)\<close> fills the buffer it is given with the output trits and moves the
  internal state on. The permutation stays a parameter: a sponge is given by its
  initial state, its absorb function, and its squeeze function, which yields the
  output and the next state.
\<close>

record 's curl =
  curl_new :: 's
  curl_absorb :: "'s \<Rightarrow> trit list \<Rightarrow> 's"
  curl_squeeze :: "'s \<Rightarrow> trit list \<times> 's"

text \<open>
  Modelled from the spec: the output width of the sponge is fixed, every squeeze yields
  \<open>HASH_LENGTH\<close> trits.
\<close>

definition curl_width :: "'s curl \<Rightarrow> bool" where
  "curl_width c \<longleftrightarrow> (\<forall>s. length (fst (curl_squeeze c s)) = HASH_LENGTH)"

subsection \<open>The store\<close>

text \<open>
  Python objects are mutable and shared by reference. The store holds the tryte buffer
  of every \<^verbatim>\<open>TryteString\<close> object, every list of trits, and the state of every
  \<^verbatim>\<open>Curl\<close> instance; a reference is an index into one of these. The calls made to
  sponges are logged in program order.
\<close>

datatype call = New nat | Absorb nat | Squeeze nat

record 's world =
  key_store :: "tryte list list"
  list_store :: "trit list list"
  sponge_store :: "'s list"
  sponge_calls :: "call list"

text \<open>A new list object: \<^verbatim>\<open>[0] * n\<close>, \<^verbatim>\<open>[]\<close>, or the result of a slice.\<close>

definition new_list :: "trit list \<Rightarrow> 's world \<Rightarrow> nat \<times> 's world" where
  "new_list xs w = (length (list_store w), w\<lparr>list_store := list_store w @ [xs]\<rparr>)"

text \<open>\<^verbatim>\<open>ys = xs[a:b]\<close>: a slice is a new list.\<close>

definition slice_of :: "nat \<Rightarrow> nat \<Rightarrow> nat \<Rightarrow> 's world \<Rightarrow> nat \<times> 's world" where
  "slice_of xs a b w = new_list (py_slice (list_store w ! xs) a b) w"

text \<open>\<^verbatim>\<open>xs[a:b] = ys\<close>: the list \<open>xs\<close> is changed in place, \<open>ys\<close> is read.\<close>

definition store_slice :: "nat \<Rightarrow> nat \<Rightarrow> nat \<Rightarrow> nat \<Rightarrow> 's world \<Rightarrow> 's world" where
  "store_slice xs a b ys w =
     w\<lparr>list_store := (list_store w)[xs := py_slice_assign (list_store w ! xs) a b (list_store w ! ys)]\<rparr>"

text \<open>
  Modelled from the spec: \<^verbatim>\<open>sponge = Curl()\<close> makes a new instance in its initial state.
\<close>

definition Curl :: "'s curl \<Rightarrow> 's world \<Rightarrow> nat \<times> 's world" where
  "Curl c w =
     (length (sponge_store w),
      w\<lparr>sponge_store := sponge_store w @ [curl_new c],
        sponge_calls := sponge_calls w @ [New (length (sponge_store w))]\<rparr>)"

text \<open>
  Modelled from the spec: \<^verbatim>\<open>sponge.absorb(trits)\<close> reads the list and changes the
  instance.
\<close>

definition absorb :: "'s curl \<Rightarrow> nat \<Rightarrow> nat \<Rightarrow> 's world \<Rightarrow> 's world" where
  "absorb c sponge trits w =
     w\<lparr>sponge_store :=
         (sponge_store w)[sponge := curl_absorb c (sponge_store w ! sponge) (list_store w ! trits)],
       sponge_calls := sponge_calls w @ [Absorb sponge]\<rparr>"

text \<open>
  Modelled from the spec: \<^verbatim>\<open>sponge.squeeze(trits)\<close> fills the list that \<open>trits\<close> refers to
  with the output, in place, and the instance moves on.
\<close>

definition squeeze :: "'s curl \<Rightarrow> nat \<Rightarrow> nat \<Rightarrow> 's world \<Rightarrow> 's world" where
  "squeeze c sponge trits w =
     w\<lparr>list_store := (list_store w)[trits := fst (curl_squeeze c (sponge_store w ! sponge))],
       sponge_store := (sponge_store w)[sponge := snd (curl_squeeze c (sponge_store w ! sponge))],
       sponge_calls := sponge_calls w @ [Squeeze sponge]\<rparr>"

section \<open>TryteString\<close>

text \<open>
  The class \<^verbatim>\<open>TryteString\<close> is imported from \<^verbatim>\<open>iota\<close> and is not part of the sources
  at hand; the four operations that \<^verbatim>\<open>Seed\<close> and \<^verbatim>\<open>SigningKey\<close> use are modelled
  from the spec.
\<close>

text \<open>
  Modelled from the spec: the constructor of \<^verbatim>\<open>TryteString\<close>, missing from the sources,
  stores the buffer of trytes in a new object.
\<close>

definition TryteString_init :: "tryte list \<Rightarrow> 's world \<Rightarrow> nat \<times> 's world" where
  "TryteString_init trytes w = (length (key_store w), w\<lparr>key_store := key_store w @ [trytes]\<rparr>)"

text \<open>
  Modelled from the spec: the length of a \<^verbatim>\<open>TryteString\<close>, missing from the sources, is
  the number of its trytes.
\<close>

definition len :: "nat \<Rightarrow> 's world \<Rightarrow> nat" where
  "len self w = length (key_store w ! self)"

text \<open>
  Modelled from the spec: \<^verbatim>\<open>TryteString.as_trits\<close>, missing from the sources, yields a
  new list with the three trits of every tryte, in order.
\<close>

definition tryte_trits :: "tryte \<Rightarrow> trit list" where
  "tryte_trits t = (case t of (a, b, c) \<Rightarrow> [a, b, c])"

definition key_trits :: "tryte list \<Rightarrow> trit list" where
  "key_trits trytes = concat (map tryte_trits trytes)"

definition as_trits :: "nat \<Rightarrow> 's world \<Rightarrow> nat \<times> 's world" where
  "as_trits self w = new_list (key_trits (key_store w ! self)) w"

text \<open>
  Modelled from the spec: \<^verbatim>\<open>TryteString.from_bytes\<close>, missing from the sources, expands
  every byte to two trytes. The encoding \<open>enc\<close> of one byte stays a parameter.
\<close>

definition from_bytes :: "(byte \<Rightarrow> tryte \<times> tryte) \<Rightarrow> byte list \<Rightarrow> tryte list" where
  "from_bytes enc bs = concat (map (\<lambda>b. [fst (enc b), snd (enc b)]) bs)"

section \<open>Seed\<close>

text \<open>
  \<^verbatim>\<open>length / 2\<close> is the true division of two ints (the module imports \<^verbatim>\<open>division\<close> from
  \<^verbatim>\<open>__future__\<close>): its value is the double nearest to the quotient, ties to the even
  mantissa, and the division raises OverflowError when that double would not be
  finite. Below \<open>2 ^ 53\<close> every half of an int is a double. From there on a double
  has 53 significant bits: the quotient of an int of \<open>l\<close> bits is rounded to a multiple
  of \<open>2 ^ (l - 54)\<close>.
\<close>

function bit_length :: "int \<Rightarrow> nat" where
  "bit_length n = (if n \<le> 0 then 0 else Suc (bit_length (n div 2)))"
  by pat_completeness auto
termination
  by (relation "measure nat") auto

declare bit_length.simps [simp del]

definition round_half_even :: "int \<Rightarrow> int \<Rightarrow> int" where
  "round_half_even a b =
     (let q = a div b; r = a mod b
      in if 2 * r < b then q else if b < 2 * r then q + 1 else if even q then q else q + 1)"

definition true_divide_by_2 :: "int \<Rightarrow> error + rat" where
  "true_divide_by_2 n =
     (let m = \<bar>n\<bar>
      in if m < 2 ^ 53 then Inr (of_int n / 2)
         else let s = bit_length m - 54;
                  v = round_half_even m (2 ^ (s + 1)) * 2 ^ s
              in if 2 ^ 1024 \<le> v then Inl OverflowError else Inr (of_int (sgn n * v)))"

text \<open>\<^verbatim>\<open>int(ceil(length / 2))\<close>: the number of bytes that \<^verbatim>\<open>random\<close> asks for.\<close>

definition byte_count :: "int \<Rightarrow> error + int" where
  "byte_count length' = (case true_divide_by_2 length' of Inl e \<Rightarrow> Inl e | Inr x \<Rightarrow> Inr \<lceil>x\<rceil>)"

text \<open>
  \<^verbatim>\<open>Seed.random(length, source)\<close>: the entropy source is a function from the number of
  bytes asked for to bytes; it may fail, and its failure is passed on. The defaults of
  the two parameters, \<^verbatim>\<open>Hash.LEN\<close> and \<^verbatim>\<open>os.urandom\<close>, are arguments like any other.
\<close>

definition random :: "(byte \<Rightarrow> tryte \<times> tryte) \<Rightarrow> int \<Rightarrow> (int \<Rightarrow> error + byte list) \<Rightarrow> error + tryte list" where
  "random enc length' source =
     (case byte_count length' of
        Inl e \<Rightarrow> Inl e
      | Inr n \<Rightarrow> (case source n of Inl e \<Rightarrow> Inl e | Inr bs \<Rightarrow> Inr (from_bytes enc bs)))"

section \<open>SigningKey\<close>

text \<open>
  \<^verbatim>\<open>SigningKey.__init__\<close>: the constructor of the superclass stores the trytes, then the
  length is checked against \<open>BLOCK_LEN\<close>.
\<close>

definition SigningKey_init :: "tryte list \<Rightarrow> 's world \<Rightarrow> (error + nat) \<times> 's world" where
  "SigningKey_init trytes w =
     (let (self, w1) = TryteString_init trytes w
      in if length (key_store w1 ! self) mod BLOCK_LEN \<noteq> 0 then (Inl ValueError, w1)
         else (Inr self, w1))"

definition block_count :: "nat \<Rightarrow> 's world \<Rightarrow> nat" where
  "block_count self w = len self w div BLOCK_LEN"

text \<open>
  The body of the innermost loop of \<^verbatim>\<open>get_digest_trits\<close>: a new sponge absorbs the
  buffer and squeezes into the same buffer.
\<close>

definition hash_round :: "'s curl \<Rightarrow> nat \<Rightarrow> 's world \<Rightarrow> 's world" where
  "hash_round c buffer w =
     (let (sponge, w1) = Curl c w;
          w2 = absorb c sponge buffer w1
      in squeeze c sponge buffer w2)"

text \<open>
  The body of the loop over \<open>j\<close>: the variable \<open>buffer\<close> is bound to a new slice of the
  block, hashed 26 times in place, and copied into \<open>key_fragment\<close>. The loop state is the
  variable \<open>buffer\<close> and the store.
\<close>

definition fragment_step :: "'s curl \<Rightarrow> nat \<Rightarrow> nat \<Rightarrow> nat \<Rightarrow> nat \<times> 's world \<Rightarrow> nat \<times> 's world" where
  "fragment_step c block_trits key_fragment j bw =
     (let hash_start = j * HASH_LENGTH;
          hash_end = hash_start + HASH_LENGTH;
          (buffer, w1) = slice_of block_trits hash_start hash_end (snd bw);
          w2 = fold (\<lambda>k. hash_round c buffer) [0..<26] w1;
          w3 = store_slice key_fragment hash_start hash_end buffer w2
      in (buffer, w3))"

text \<open>The body of the loop over \<open>i\<close>.\<close>

definition block_step :: "'s curl \<Rightarrow> nat \<Rightarrow> nat \<Rightarrow> nat \<Rightarrow> nat \<Rightarrow> 's world \<Rightarrow> 's world" where
  "block_step c block_size raw_trits digest i w =
     (let block_start = i * block_size;
          block_end = block_start + block_size;
          (block_trits, w1) = slice_of raw_trits block_start block_end w;
          (key_fragment, w2) = new_list (replicate block_size 0) w1;
          (buffer0, w3) = new_list [] w2;
          (buffer, w4) = fold (fragment_step c block_trits key_fragment) [0..<27] (buffer0, w3);
          (sponge, w5) = Curl c w4;
          w6 = absorb c sponge key_fragment w5;
          w7 = squeeze c sponge buffer w6
      in store_slice digest block_start block_end buffer w7)"

text \<open>\<^verbatim>\<open>SigningKey.get_digest_trits\<close>: returns the reference to the list \<open>digest\<close>.\<close>

definition get_digest_trits :: "'s curl \<Rightarrow> nat \<Rightarrow> 's world \<Rightarrow> nat \<times> 's world" where
  "get_digest_trits c self w =
     (let block_size = BLOCK_LEN * 3;
          (raw_trits, w1) = as_trits self w;
          (digest, w2) = new_list (replicate HASH_LENGTH 0) w1;
          w3 = fold (block_step c block_size raw_trits digest) [0..<block_count self w2] w2
      in (digest, w3))"

text \<open>The list that a call returns, read from the store after the call.\<close>

definition digest_trits :: "'s curl \<Rightarrow> nat \<Rightarrow> 's world \<Rightarrow> trit list" where
  "digest_trits c self w = (case get_digest_trits c self w of (digest, w') \<Rightarrow> list_store w' ! digest)"

section \<open>The values that the loops compute\<close>

text \<open>
  The functions of this section describe, without the store, the contents of the lists
  that \<^verbatim>\<open>get_digest_trits\<close> builds. They follow the loops statement by statement, with
  the same slices and the same slice assignments.
\<close>

text \<open>One pass through the innermost loop turns the contents of \<open>buffer\<close> into:\<close>

definition curl_hash :: "'s curl \<Rightarrow> trit list \<Rightarrow> trit list" where
  "curl_hash c xs = fst (curl_squeeze c (curl_absorb c (curl_new c) xs))"

text \<open>The 26 passes of the innermost loop.\<close>

definition chain :: "'s curl \<Rightarrow> trit list \<Rightarrow> trit list" where
  "chain c buffer = (curl_hash c ^^ 26) buffer"

text \<open>The contents of \<open>buffer\<close> at the end of pass \<open>j\<close> of the loop over the fragments.\<close>

definition fragment :: "'s curl \<Rightarrow> trit list \<Rightarrow> nat \<Rightarrow> trit list" where
  "fragment c block_trits j =
     chain c (py_slice block_trits (j * HASH_LENGTH) (j * HASH_LENGTH + HASH_LENGTH))"

text \<open>The contents of \<open>key_fragment\<close> after \<open>m\<close> passes of the loop over the fragments.\<close>

definition fragments :: "'s curl \<Rightarrow> trit list \<Rightarrow> nat \<Rightarrow> trit list \<Rightarrow> trit list" where
  "fragments c block_trits m key_fragment =
     fold (\<lambda>j kf. py_slice_assign kf (j * HASH_LENGTH) (j * HASH_LENGTH + HASH_LENGTH)
                     (fragment c block_trits j))
       [0..<m] key_fragment"

text \<open>The contents of \<open>buffer\<close> after the last squeeze of a pass of the loop over the blocks.\<close>

definition block_digest :: "'s curl \<Rightarrow> nat \<Rightarrow> trit list \<Rightarrow> trit list" where
  "block_digest c block_size block_trits =
     curl_hash c (fragments c block_trits 27 (replicate block_size 0))"

text \<open>The contents of \<open>block_trits\<close> in pass \<open>i\<close> of the loop over the blocks.\<close>

definition block_of :: "nat \<Rightarrow> trit list \<Rightarrow> nat \<Rightarrow> trit list" where
  "block_of block_size raw_trits i =
     py_slice raw_trits (i * block_size) (i * block_size + block_size)"

text \<open>The contents of \<open>digest\<close> after \<open>m\<close> passes of the loop over the blocks.\<close>

definition digests :: "'s curl \<Rightarrow> nat \<Rightarrow> trit list \<Rightarrow> nat \<Rightarrow> trit list \<Rightarrow> trit list" where
  "digests c block_size raw_trits m digest =
     fold (\<lambda>i dg. py_slice_assign dg (i * block_size) (i * block_size + block_size)
                     (block_digest c block_size (block_of block_size raw_trits i)))
       [0..<m] digest"

text \<open>The contents of the list that \<^verbatim>\<open>get_digest_trits\<close> returns, for a key with these trytes.\<close>

definition digest_value :: "'s curl \<Rightarrow> tryte list \<Rightarrow> trit list" where
  "digest_value c trytes =
     digests c (BLOCK_LEN * 3) (key_trits trytes) (length trytes div BLOCK_LEN)
       (replicate HASH_LENGTH 0)"

text \<open>The calls of \<open>m\<close> sponges, numbered from \<open>n\<close>, each made, fed once and read once.\<close>

definition uses :: "nat \<Rightarrow> nat \<Rightarrow> call list" where
  "uses n m = concat (map (\<lambda>i. [New i, Absorb i, Squeeze i]) [n..<n + m])"

section \<open>The schedule as the specification words it\<close>

text \<open>
  A round makes a new sponge, absorbs the buffer and squeezes \<open>HASH_LENGTH\<close> trits back
  into the buffer. A block of the key is split into 27 fragments of \<open>HASH_LENGTH\<close> trits
  that follow each other; each fragment goes through 26 rounds; the 27 results, side
  by side, are the key fragment; one more new sponge absorbs the key fragment and
  squeezes the digest segment of the block.
\<close>

definition spec_round :: "'s curl \<Rightarrow> trit list \<Rightarrow> trit list" where
  "spec_round c buffer = fst (curl_squeeze c (curl_absorb c (curl_new c) buffer))"

definition spec_block :: "trit list \<Rightarrow> nat \<Rightarrow> trit list" where
  "spec_block trits i = take (BLOCK_LEN * 3) (drop (i * (BLOCK_LEN * 3)) trits)"

definition spec_fragment :: "trit list \<Rightarrow> nat \<Rightarrow> trit list" where
  "spec_fragment block j = take HASH_LENGTH (drop (j * HASH_LENGTH) block)"

definition spec_key_fragment :: "'s curl \<Rightarrow> trit list \<Rightarrow> trit list" where
  "spec_key_fragment c block =
     concat (map (\<lambda>j. (spec_round c ^^ 26) (spec_fragment block j)) [0..<27])"

definition spec_block_digest :: "'s curl \<Rightarrow> trit list \<Rightarrow> trit list" where
  "spec_block_digest c block = spec_round c (spec_key_fragment c block)"

section \<open>Test fixtures\<close>

text \<open>
  A small sponge of the right width, an encoding of bytes, an entropy source that
  yields zero bytes, and the store before anything is built.
\<close>

definition toy_curl :: "trit list curl" where
  "toy_curl = \<lparr>curl_new = [], curl_absorb = (\<lambda>s xs. s @ xs),
     curl_squeeze = (\<lambda>s. (map (\<lambda>i. (sum_list s + int i) mod 3 - 1) [0..<HASH_LENGTH], s))\<rparr>"

definition toy_enc :: "byte \<Rightarrow> tryte \<times> tryte" where
  "toy_enc b = ((int (unat b mod 3) - 1, 0, 0), (int (unat b div 3 mod 3) - 1, 0, 0))"

definition zero_source :: "int \<Rightarrow> error + byte list" where
  "zero_source n = Inr (replicate (nat n) 0)"

definition empty_world :: "trit list world" where
  "empty_world = \<lparr>key_store = [], list_store = [], sponge_store = [], sponge_calls = []\<rparr>"

definition one_block :: "tryte list" where
  "one_block = replicate BLOCK_LEN (1, 0, -1)"

text \<open>The store after a key of one block has been built in the empty store.\<close>

definition key_world :: "trit list world" where
  "key_world = \<lparr>key_store = [one_block], list_store = [], sponge_store = [], sponge_calls = []\<rparr>"

section \<open>The effect of the statements on the store\<close>

lemma new_list_simps [simp]:
  "fst (new_list xs w) = length (list_store w)"
  "list_store (snd (new_list xs w)) = list_store w @ [xs]"
  "key_store (snd (new_list xs w)) = key_store w"
  "sponge_store (snd (new_list xs w)) = sponge_store w"
  "sponge_calls (snd (new_list xs w)) = sponge_calls w"
  by (simp_all add: new_list_def)

lemma slice_of_simps [simp]:
  "fst (slice_of xs a b w) = length (list_store w)"
  "list_store (snd (slice_of xs a b w)) = list_store w @ [py_slice (list_store w ! xs) a b]"
  "key_store (snd (slice_of xs a b w)) = key_store w"
  "sponge_store (snd (slice_of xs a b w)) = sponge_store w"
  "sponge_calls (snd (slice_of xs a b w)) = sponge_calls w"
  by (simp_all add: slice_of_def)

lemma store_slice_simps [simp]:
  "list_store (store_slice xs a b ys w) =
     (list_store w)[xs := py_slice_assign (list_store w ! xs) a b (list_store w ! ys)]"
  "key_store (store_slice xs a b ys w) = key_store w"
  "sponge_store (store_slice xs a b ys w) = sponge_store w"
  "sponge_calls (store_slice xs a b ys w) = sponge_calls w"
  by (simp_all add: store_slice_def)

lemma uses_0 [simp]: "uses n 0 = []"
  by (simp add: uses_def)

lemma uses_add: "uses n (m + k) = uses n m @ uses (n + m) k"
proof -
  have "[n..<n + (m + k)] = [n..<n + m] @ [n + m..<n + m + k]"
    by (metis add.assoc le_add1 upt_add_eq_append)
  then show ?thesis by (simp add: uses_def)
qed

lemma uses_1: "uses n (Suc 0) = [New n, Absorb n, Squeeze n]"
  by (simp add: uses_def)

lemma hash_round_list:
  "list_store (hash_round c b w) = (list_store w)[b := curl_hash c (list_store w ! b)]"
  by (simp add: hash_round_def Curl_def absorb_def squeeze_def curl_hash_def)

lemma hash_round_key [simp]: "key_store (hash_round c b w) = key_store w"
  by (simp add: hash_round_def Curl_def absorb_def squeeze_def)

lemma hash_round_sponges:
  "length (sponge_store (hash_round c b w)) = Suc (length (sponge_store w))"
  by (simp add: hash_round_def Curl_def absorb_def squeeze_def)

lemma hash_round_calls:
  "sponge_calls (hash_round c b w) = sponge_calls w @ uses (length (sponge_store w)) 1"
  by (simp add: hash_round_def Curl_def absorb_def squeeze_def uses_1)

lemma rounds_list:
  "b < length (list_store w) \<Longrightarrow>
   list_store (fold (\<lambda>k. hash_round c b) [0..<m] w) =
     (list_store w)[b := (curl_hash c ^^ m) (list_store w ! b)]"
  by (induction m) (simp_all add: hash_round_list)

lemma rounds_key [simp]: "key_store (fold (\<lambda>k. hash_round c b) [0..<m] w) = key_store w"
  by (induction m) simp_all

lemma rounds_sponges:
  "length (sponge_store (fold (\<lambda>k. hash_round c b) [0..<m] w)) = length (sponge_store w) + m"
  by (induction m) (simp_all add: hash_round_sponges)

lemma rounds_calls:
  "sponge_calls (fold (\<lambda>k. hash_round c b) [0..<m] w) =
     sponge_calls w @ uses (length (sponge_store w)) m"
proof (induction m)
  case 0
  show ?case by simp
next
  case (Suc m)
  have "uses (length (sponge_store w)) (m + 1) =
        uses (length (sponge_store w)) m @ uses (length (sponge_store w) + m) 1"
    by (rule uses_add)
  with Suc show ?case
    by (simp add: hash_round_calls rounds_sponges)
qed

lemma fragment_step_fst:
  "fst (fragment_step c bt kf j bw) = length (list_store (snd bw))"
  by (simp add: fragment_step_def Let_def split_def)

lemma fragment_step_list:
  assumes "bt < length (list_store (snd bw))" "kf < length (list_store (snd bw))"
  shows "list_store (snd (fragment_step c bt kf j bw)) =
     (list_store (snd bw))
       [kf := py_slice_assign (list_store (snd bw) ! kf) (j * HASH_LENGTH)
                (j * HASH_LENGTH + HASH_LENGTH) (fragment c (list_store (snd bw) ! bt) j)]
     @ [fragment c (list_store (snd bw) ! bt) j]"
  using assms
  by (simp add: fragment_step_def Let_def split_def rounds_list nth_append list_update_append
      fragment_def chain_def)

lemma fragment_step_key [simp]:
  "key_store (snd (fragment_step c bt kf j bw)) = key_store (snd bw)"
  by (simp add: fragment_step_def Let_def split_def)

lemma fragment_step_sponges:
  "length (sponge_store (snd (fragment_step c bt kf j bw))) = length (sponge_store (snd bw)) + 26"
  by (simp add: fragment_step_def Let_def split_def rounds_sponges)

lemma fragment_step_calls:
  "sponge_calls (snd (fragment_step c bt kf j bw)) =
     sponge_calls (snd bw) @ uses (length (sponge_store (snd bw))) 26"
  by (simp add: fragment_step_def Let_def split_def rounds_calls)

lemma fragment_loop_list:
  assumes "bt < length (list_store (snd bw))" "kf < length (list_store (snd bw))" "bt \<noteq> kf"
  shows "list_store (snd (fold (fragment_step c bt kf) [0..<m] bw)) =
     (list_store (snd bw))[kf := fragments c (list_store (snd bw) ! bt) m (list_store (snd bw) ! kf)]
     @ map (fragment c (list_store (snd bw) ! bt)) [0..<m]"
proof (induction m)
  case 0
  show ?case by (simp add: fragments_def)
next
  case (Suc m)
  let ?bw1 = "fold (fragment_step c bt kf) [0..<m] bw"
  have bt: "bt < length (list_store (snd ?bw1))" and kf: "kf < length (list_store (snd ?bw1))"
    using assms by (simp_all add: Suc)
  have rd: "list_store (snd ?bw1) ! bt = list_store (snd bw) ! bt"
    using assms by (simp add: Suc nth_append)
  have rk: "list_store (snd ?bw1) ! kf = fragments c (list_store (snd bw) ! bt) m (list_store (snd bw) ! kf)"
    using assms by (simp add: Suc nth_append)
  have "list_store (snd (fragment_step c bt kf m ?bw1)) =
     (list_store (snd ?bw1))
       [kf := py_slice_assign (list_store (snd ?bw1) ! kf) (m * HASH_LENGTH)
                (m * HASH_LENGTH + HASH_LENGTH) (fragment c (list_store (snd ?bw1) ! bt) m)]
     @ [fragment c (list_store (snd ?bw1) ! bt) m]"
    using bt kf by (rule fragment_step_list)
  also have "\<dots> = (list_store (snd ?bw1))
       [kf := fragments c (list_store (snd bw) ! bt) (Suc m) (list_store (snd bw) ! kf)]
     @ [fragment c (list_store (snd bw) ! bt) m]"
    unfolding rd rk by (simp add: fragments_def)
  also have "\<dots> = (list_store (snd bw))[kf := fragments c (list_store (snd bw) ! bt) (Suc m) (list_store (snd bw) ! kf)]
     @ map (fragment c (list_store (snd bw) ! bt)) [0..<Suc m]"
    using assms by (simp add: Suc list_update_append)
  finally show ?case by simp
qed

lemma fragment_loop_fst:
  "fst (fold (fragment_step c bt kf) [0..<Suc m] bw) =
     length (list_store (snd (fold (fragment_step c bt kf) [0..<m] bw)))"
  by (simp add: fragment_step_fst)

lemma fragment_loop_key [simp]:
  "key_store (snd (fold (fragment_step c bt kf) [0..<m] bw)) = key_store (snd bw)"
  by (induction m) simp_all

lemma fragment_loop_sponges:
  "length (sponge_store (snd (fold (fragment_step c bt kf) [0..<m] bw))) =
     length (sponge_store (snd bw)) + 26 * m"
  by (induction m) (simp_all add: fragment_step_sponges)

lemma fragment_loop_calls:
  "sponge_calls (snd (fold (fragment_step c bt kf) [0..<m] bw)) =
     sponge_calls (snd bw) @ uses (length (sponge_store (snd bw))) (26 * m)"
proof (induction m)
  case 0
  show ?case by simp
next
  case (Suc m)
  have "uses (length (sponge_store (snd bw))) (26 + 26 * m) =
        uses (length (sponge_store (snd bw))) (26 * m) @ uses (length (sponge_store (snd bw)) + 26 * m) 26"
    using uses_add [of _ "26 * m" 26] by (simp add: add.commute)
  with Suc show ?case
    by (simp add: fragment_step_calls fragment_loop_sponges)
qed

lemma fragment_loop_length:
  assumes "bt < length (list_store (snd bw))" "kf < length (list_store (snd bw))" "bt \<noteq> kf"
  shows "length (list_store (snd (fold (fragment_step c bt kf) [0..<m] bw))) =
     length (list_store (snd bw)) + m"
  by (simp add: fragment_loop_list [OF assms])

lemma fragment_loop_buffer:
  assumes "bt < length (list_store (snd bw))" "kf < length (list_store (snd bw))" "bt \<noteq> kf"
  shows "fst (fold (fragment_step c bt kf) [0..<Suc m] bw) = length (list_store (snd bw)) + m"
  by (simp only: fragment_loop_fst fragment_loop_length [OF assms])

lemma Curl_simps [simp]:
  "fst (Curl c w) = length (sponge_store w)"
  "list_store (snd (Curl c w)) = list_store w"
  "key_store (snd (Curl c w)) = key_store w"
  "sponge_store (snd (Curl c w)) = sponge_store w @ [curl_new c]"
  "sponge_calls (snd (Curl c w)) = sponge_calls w @ [New (length (sponge_store w))]"
  by (simp_all add: Curl_def)

lemma absorb_simps [simp]:
  "list_store (absorb c sp a w) = list_store w"
  "key_store (absorb c sp a w) = key_store w"
  "sponge_store (absorb c sp a w) =
     (sponge_store w)[sp := curl_absorb c (sponge_store w ! sp) (list_store w ! a)]"
  "sponge_calls (absorb c sp a w) = sponge_calls w @ [Absorb sp]"
  by (simp_all add: absorb_def)

lemma squeeze_simps [simp]:
  "list_store (squeeze c sp a w) = (list_store w)[a := fst (curl_squeeze c (sponge_store w ! sp))]"
  "key_store (squeeze c sp a w) = key_store w"
  "length (sponge_store (squeeze c sp a w)) = length (sponge_store w)"
  "sponge_calls (squeeze c sp a w) = sponge_calls w @ [Squeeze sp]"
  by (simp_all add: squeeze_def)

lemma block_step_key [simp]: "key_store (block_step c bs raw d i w) = key_store w"
  by (simp add: block_step_def Let_def split_def)

lemma block_step_sponges:
  "length (sponge_store (block_step c bs raw d i w)) = length (sponge_store w) + 703"
  by (simp add: block_step_def Let_def split_def fragment_loop_sponges)

lemma block_step_calls:
  "sponge_calls (block_step c bs raw d i w) = sponge_calls w @ uses (length (sponge_store w)) 703"
proof -
  have "uses (length (sponge_store w)) (702 + 1) =
        uses (length (sponge_store w)) 702 @ uses (length (sponge_store w) + 702) 1"
    by (rule uses_add)
  then show ?thesis
    by (simp add: block_step_def Let_def split_def fragment_loop_sponges fragment_loop_calls uses_1)
qed

lemma block_step_list:
  assumes raw: "raw < length (list_store w)" and d: "d < length (list_store w)"
  shows "length (list_store (block_step c bs raw d i w)) = length (list_store w) + 30"
    and "take (length (list_store w)) (list_store (block_step c bs raw d i w)) =
     (list_store w)[d := py_slice_assign (list_store w ! d) (i * bs) (i * bs + bs)
        (block_digest c bs (block_of bs (list_store w ! raw) i))]"
proof -
  let ?ls = "list_store w"
  let ?L = "length ?ls"
  let ?B = "block_of bs (?ls ! raw) i"
  define bw3 where "bw3 = new_list [] (snd (new_list (replicate bs 0)
      (snd (slice_of raw (i * bs) (i * bs + bs) w))))"
  have ls3: "list_store (snd bw3) = ?ls @ [?B, replicate bs 0, []]"
    by (simp add: bw3_def block_of_def)
  define bw4 where "bw4 = fold (fragment_step c ?L (Suc ?L)) [0..<27] bw3"
  have a: "?L < length (list_store (snd bw3))" "Suc ?L < length (list_store (snd bw3))"
      "?L \<noteq> Suc ?L"
    by (simp_all add: ls3)
  have "27 = Suc 26" by simp
  then have b4: "fst bw4 = ?L + 29"
    unfolding bw4_def using fragment_loop_buffer [of ?L bw3 "Suc ?L" c 26] a
    by (simp add: ls3)
  let ?KF = "fragments c ?B 27 (replicate bs 0)"
  have ls4: "list_store (snd bw4) = ?ls @ [?B, ?KF, []] @ map (fragment c ?B) [0..<27]"
    unfolding bw4_def using fragment_loop_list [of ?L bw3 "Suc ?L" c 27] a
    by (simp add: ls3 nth_append list_update_append)
  define w7 where "w7 = (let (sponge, w5) = Curl c (snd bw4);
          w6 = absorb c sponge (Suc ?L) w5 in squeeze c sponge (fst bw4) w6)"
  have len7: "length (list_store w7) = ?L + 30"
    by (simp add: w7_def Let_def split_def ls4)
  have tk7: "take ?L (list_store w7) = ?ls"
    by (simp add: w7_def Let_def split_def ls4 b4 list_update_append)
  have bf7: "list_store w7 ! (fst bw4) = block_digest c bs ?B"
    by (simp add: w7_def Let_def split_def ls4 b4 nth_append block_digest_def curl_hash_def)
  have d7: "list_store w7 ! d = ?ls ! d"
    using d tk7 by (metis nth_take)
  have eq: "block_step c bs raw d i w = store_slice d (i * bs) (i * bs + bs) (fst bw4) w7"
    by (simp add: block_step_def w7_def bw4_def bw3_def Let_def split_def)
  show "length (list_store (block_step c bs raw d i w)) = ?L + 30"
    by (simp add: eq len7)
  show "take ?L (list_store (block_step c bs raw d i w)) =
     ?ls[d := py_slice_assign (?ls ! d) (i * bs) (i * bs + bs) (block_digest c bs ?B)]"
    by (simp add: eq bf7 d7 take_update_swap tk7)
qed

lemma block_loop_key [simp]:
  "key_store (fold (block_step c bs raw d) [0..<m] w) = key_store w"
  by (induction m) simp_all

lemma block_loop_sponges:
  "length (sponge_store (fold (block_step c bs raw d) [0..<m] w)) =
     length (sponge_store w) + 703 * m"
  by (induction m) (simp_all add: block_step_sponges)

lemma block_loop_calls:
  "sponge_calls (fold (block_step c bs raw d) [0..<m] w) =
     sponge_calls w @ uses (length (sponge_store w)) (703 * m)"
proof (induction m)
  case 0
  show ?case by simp
next
  case (Suc m)
  have "uses (length (sponge_store w)) (703 + 703 * m) =
        uses (length (sponge_store w)) (703 * m) @ uses (length (sponge_store w) + 703 * m) 703"
    using uses_add [of _ "703 * m" 703] by (simp add: add.commute)
  with Suc show ?case
    by (simp add: block_step_calls block_loop_sponges)
qed

lemma block_loop_list:
  assumes raw: "raw < length (list_store w)" and d: "d < length (list_store w)"
    and ne: "raw \<noteq> d"
  shows "length (list_store (fold (block_step c bs raw d) [0..<m] w)) =
           length (list_store w) + 30 * m
       \<and> take (length (list_store w)) (list_store (fold (block_step c bs raw d) [0..<m] w)) =
           (list_store w)[d := digests c bs (list_store w ! raw) m (list_store w ! d)]"
proof (induction m)
  case 0
  show ?case by (simp add: digests_def)
next
  case (Suc m)
  let ?ls = "list_store w"
  let ?L = "length ?ls"
  let ?w1 = "fold (block_step c bs raw d) [0..<m] w"
  let ?ls1 = "list_store ?w1"
  let ?D = "digests c bs (?ls ! raw) m (?ls ! d)"
  from Suc have len1: "length ?ls1 = ?L + 30 * m" and tk1: "take ?L ?ls1 = ?ls[d := ?D]"
    by simp_all
  have raw1: "raw < length ?ls1" and d1: "d < length ?ls1"
    using raw d by (simp_all add: len1)
  have "?ls1 ! raw = take ?L ?ls1 ! raw"
    using raw by simp
  then have rr: "?ls1 ! raw = ?ls ! raw"
    using ne by (simp add: tk1)
  have "?ls1 ! d = take ?L ?ls1 ! d"
    using d by simp
  then have rd: "?ls1 ! d = ?D"
    using d by (simp add: tk1)
  let ?X = "py_slice_assign ?D (m * bs) (m * bs + bs) (block_digest c bs (block_of bs (?ls ! raw) m))"
  have step: "take (length ?ls1) (list_store (block_step c bs raw d m ?w1)) = ?ls1[d := ?X]"
    using block_step_list(2) [OF raw1 d1, of c bs m] by (simp only: rr rd)
  have "take ?L (list_store (block_step c bs raw d m ?w1)) =
        take ?L (take (length ?ls1) (list_store (block_step c bs raw d m ?w1)))"
    by (simp add: len1)
  also have "\<dots> = (take ?L ?ls1)[d := ?X]"
    by (simp only: step take_update_swap)
  also have "\<dots> = ?ls[d := ?X]"
    by (simp add: tk1)
  finally have "take ?L (list_store (block_step c bs raw d m ?w1)) =
      ?ls[d := digests c bs (?ls ! raw) (Suc m) (?ls ! d)]"
    by (simp add: digests_def)
  moreover have "length (list_store (block_step c bs raw d m ?w1)) = ?L + 30 * Suc m"
    using block_step_list(1) [OF raw1 d1, of c bs m] by (simp add: len1)
  ultimately show ?case by simp
qed

lemma get_digest_trits_fst: "fst (get_digest_trits c self w) = Suc (length (list_store w))"
  by (simp add: get_digest_trits_def as_trits_def Let_def split_def)

lemma get_digest_trits_key: "key_store (snd (get_digest_trits c self w)) = key_store w"
  by (simp add: get_digest_trits_def as_trits_def Let_def split_def)

lemma get_digest_trits_sponges:
  "length (sponge_store (snd (get_digest_trits c self w))) =
     length (sponge_store w) + 703 * block_count self w"
  by (simp add: get_digest_trits_def as_trits_def Let_def split_def block_loop_sponges
      block_count_def len_def)

lemma get_digest_trits_calls:
  "sponge_calls (snd (get_digest_trits c self w)) =
     sponge_calls w @ uses (length (sponge_store w)) (703 * block_count self w)"
  by (simp add: get_digest_trits_def as_trits_def Let_def split_def block_loop_calls
      block_count_def len_def)

lemma get_digest_trits_list:
  "length (list_store (snd (get_digest_trits c self w))) =
     length (list_store w) + 2 + 30 * block_count self w"
  "take (length (list_store w) + 2) (list_store (snd (get_digest_trits c self w))) =
     list_store w @ [key_trits (key_store w ! self), digest_value c (key_store w ! self)]"
proof -
  let ?L = "length (list_store w)"
  define w2 where "w2 = snd (new_list (replicate HASH_LENGTH 0) (snd (as_trits self w)))"
  have ls2: "list_store w2 = list_store w @ [key_trits (key_store w ! self), replicate HASH_LENGTH 0]"
    by (simp add: w2_def as_trits_def)
  have k2: "key_store w2 = key_store w"
    by (simp add: w2_def as_trits_def)
  have eq: "snd (get_digest_trits c self w) =
      fold (block_step c (BLOCK_LEN * 3) ?L (Suc ?L)) [0..<block_count self w] w2"
    by (simp add: get_digest_trits_def w2_def as_trits_def Let_def split_def block_count_def len_def)
  have a: "?L < length (list_store w2)" "Suc ?L < length (list_store w2)" "?L \<noteq> Suc ?L"
    by (simp_all add: ls2)
  note loop = block_loop_list [OF a, of c "BLOCK_LEN * 3" "block_count self w"]
  show "length (list_store (snd (get_digest_trits c self w))) = ?L + 2 + 30 * block_count self w"
    using loop by (simp add: eq ls2)
  have "length (list_store w2) = ?L + 2"
    by (simp add: ls2)
  with loop show "take (?L + 2) (list_store (snd (get_digest_trits c self w))) =
     list_store w @ [key_trits (key_store w ! self), digest_value c (key_store w ! self)]"
    by (simp add: eq ls2 nth_append list_update_append digest_value_def block_count_def len_def)
qed

lemma digest_trits_value: "digest_trits c self w = digest_value c (key_store w ! self)"
proof -
  let ?L = "length (list_store w)"
  let ?ls' = "list_store (snd (get_digest_trits c self w))"
  have "?ls' ! Suc ?L = take (?L + 2) ?ls' ! Suc ?L"
    by simp
  also have "\<dots> = digest_value c (key_store w ! self)"
    by (simp only: get_digest_trits_list(2)) (simp add: nth_append)
  finally show ?thesis
    by (simp add: digest_trits_def split_def get_digest_trits_fst)
qed

lemma curl_hash_length: "curl_width c \<Longrightarrow> length (curl_hash c xs) = HASH_LENGTH"
  by (simp add: curl_width_def curl_hash_def)

lemma chain_unfold: "chain c xs = curl_hash c ((curl_hash c ^^ 25) xs)"
proof -
  have "(26::nat) = Suc 25" by simp
  then show ?thesis by (simp only: chain_def funpow.simps o_apply)
qed

lemma chain_length: "curl_width c \<Longrightarrow> length (chain c xs) = HASH_LENGTH"
  by (simp add: chain_unfold curl_hash_length)

lemma fragment_length: "curl_width c \<Longrightarrow> length (fragment c bt j) = HASH_LENGTH"
  by (simp add: fragment_def chain_length)

lemma length_concat_upt:
  "(\<And>j. length (f j) = n) \<Longrightarrow> length (concat (map f [0..<m])) = m * n"
  by (induction m) simp_all

lemma fragments_concat:
  assumes "curl_width c"
  shows "m * HASH_LENGTH \<le> length kf \<Longrightarrow>
     fragments c bt m kf = concat (map (fragment c bt) [0..<m]) @ drop (m * HASH_LENGTH) kf"
proof (induction m)
  case 0
  show ?case by (simp add: fragments_def)
next
  case (Suc m)
  let ?P = "concat (map (fragment c bt) [0..<m])"
  have len: "length ?P = m * HASH_LENGTH"
    by (rule length_concat_upt) (rule fragment_length [OF assms])
  from Suc have IH: "fragments c bt m kf = ?P @ drop (m * HASH_LENGTH) kf"
    by simp
  have "fragments c bt (Suc m) kf =
      py_slice_assign (fragments c bt m kf) (m * HASH_LENGTH) (m * HASH_LENGTH + HASH_LENGTH)
        (fragment c bt m)"
    by (simp add: fragments_def)
  also have "\<dots> = ?P @ fragment c bt m @ drop (HASH_LENGTH + m * HASH_LENGTH) kf"
    by (simp add: IH py_slice_assign_def len add.commute)
  finally show ?case by simp
qed

lemma block_size_fragments: "BLOCK_LEN * 3 = 27 * HASH_LENGTH"
  by (simp add: BLOCK_LEN_def HASH_LENGTH_def)

lemma block_digest_concat:
  assumes "curl_width c"
  shows "block_digest c (BLOCK_LEN * 3) bt = curl_hash c (concat (map (fragment c bt) [0..<27]))"
proof -
  have "fragments c bt 27 (replicate (BLOCK_LEN * 3) 0) =
      concat (map (fragment c bt) [0..<27]) @ drop (27 * HASH_LENGTH) (replicate (BLOCK_LEN * 3) 0)"
    by (rule fragments_concat [OF assms]) (simp add: block_size_fragments)
  then show ?thesis
    by (simp add: block_digest_def block_size_fragments)
qed

lemma block_digest_length: "curl_width c \<Longrightarrow> length (block_digest c bs bt) = HASH_LENGTH"
  by (simp add: block_digest_def curl_hash_length)

lemma digests_concat:
  assumes "curl_width c" and "HASH_LENGTH \<le> bs"
  shows "digests c bs raw (Suc m) (replicate HASH_LENGTH 0) =
     concat (map (\<lambda>i. block_digest c bs (block_of bs raw i)) [0..<Suc m])"
proof (induction m)
  case 0
  show ?case using assms(2) by (simp add: digests_def py_slice_assign_def)
next
  case (Suc m)
  let ?f = "\<lambda>i. block_digest c bs (block_of bs raw i)"
  let ?P = "concat (map ?f [0..<Suc m])"
  have "length ?P = Suc m * HASH_LENGTH"
    by (rule length_concat_upt) (rule block_digest_length [OF assms(1)])
  moreover have "Suc m * HASH_LENGTH \<le> Suc m * bs"
    using assms(2) by (rule mult_le_mono2)
  ultimately have len: "length ?P \<le> Suc m * bs"
    by simp
  have "digests c bs raw (Suc (Suc m)) (replicate HASH_LENGTH 0) =
      py_slice_assign (digests c bs raw (Suc m) (replicate HASH_LENGTH 0))
        (Suc m * bs) (Suc m * bs + bs) (?f (Suc m))"
    by (simp add: digests_def)
  also have "\<dots> = py_slice_assign ?P (Suc m * bs) (Suc m * bs + bs) (?f (Suc m))"
    by (simp only: Suc)
  also have "\<dots> = ?P @ ?f (Suc m)"
    using len by (simp add: py_slice_assign_def)
  finally show ?case by simp
qed

lemma segment_of_concat:
  assumes "\<And>j. length (f j) = k"
  shows "i < n \<Longrightarrow> take k (drop (i * k) (concat (map f [0..<n]))) = f i"
proof (induction n)
  case 0
  then show ?case by simp
next
  case (Suc n)
  have len: "length (concat (map f [0..<n])) = n * k"
    by (rule length_concat_upt) (rule assms)
  show ?case
  proof (cases "i = n")
    case True
    then show ?thesis by (simp add: len assms)
  next
    case False
    with Suc.prems have i: "i < n" by simp
    then have "Suc i \<le> n" by simp
    then have "Suc i * k \<le> n * k" by (rule mult_le_mono1)
    then have "i * k + k \<le> n * k" by simp
    then show ?thesis
      using Suc.IH [OF i] by (simp add: len)
  qed
qed

lemma key_trits_length: "length (key_trits trytes) = 3 * length trytes"
  by (induction trytes) (simp_all add: key_trits_def tryte_trits_def split_def)

lemma key_trits_append: "key_trits (xs @ ys) = key_trits xs @ key_trits ys"
  by (simp add: key_trits_def)

lemma digest_value_empty:
  "length trytes div BLOCK_LEN = 0 \<Longrightarrow> digest_value c trytes = replicate HASH_LENGTH 0"
  by (simp add: digest_value_def digests_def)

lemma digest_value_blocks:
  assumes "curl_width c" and "0 < length trytes div BLOCK_LEN"
  shows "digest_value c trytes =
     concat (map (\<lambda>i. block_digest c (BLOCK_LEN * 3) (block_of (BLOCK_LEN * 3) (key_trits trytes) i))
       [0..<length trytes div BLOCK_LEN])"
proof -
  obtain m where m: "length trytes div BLOCK_LEN = Suc m"
    using assms(2) by (cases "length trytes div BLOCK_LEN") simp_all
  have "HASH_LENGTH \<le> BLOCK_LEN * 3"
    by (simp add: block_size_fragments)
  from digests_concat [OF assms(1) this] show ?thesis
    by (simp only: digest_value_def m)
qed

lemma block_of_length:
  assumes "i < length trytes div BLOCK_LEN"
  shows "length (block_of (BLOCK_LEN * 3) (key_trits trytes) i) = BLOCK_LEN * 3"
proof -
  have "Suc i \<le> length trytes div BLOCK_LEN"
    using assms by simp
  then have "Suc i * BLOCK_LEN \<le> length trytes div BLOCK_LEN * BLOCK_LEN"
    by (rule mult_le_mono1)
  also have "\<dots> \<le> length trytes"
    by simp
  finally have "i * (BLOCK_LEN * 3) + BLOCK_LEN * 3 \<le> 3 * length trytes"
    by simp
  then show ?thesis
    by (simp add: block_of_def py_slice_def key_trits_length)
qed

section \<open>The constructor\<close>

lemma SigningKey_init_eq:
  "SigningKey_init trytes w =
     (if length trytes mod BLOCK_LEN \<noteq> 0 then Inl ValueError else Inr (length (key_store w)),
      w\<lparr>key_store := key_store w @ [trytes]\<rparr>)"
  by (simp add: SigningKey_init_def TryteString_init_def)

lemma SigningKey_init_Inr:
  assumes "SigningKey_init trytes w0 = (Inr self, w)"
  shows "self = length (key_store w0)" and "key_store w = key_store w0 @ [trytes]"
    and "key_store w ! self = trytes" and "length trytes mod BLOCK_LEN = 0"
  using assms by (auto simp add: SigningKey_init_eq split: if_splits)

lemma one_block_init: "SigningKey_init one_block empty_world = (Inr 0, key_world)"
  by (simp add: SigningKey_init_eq one_block_def empty_world_def key_world_def)

section \<open>Construction and block count\<close>

text \<open>
  C7: for every SigningKey whose construction succeeds, \<open>block_count\<close> is the length of
  the key in trytes divided by \<open>BLOCK_LEN\<close>, and the division is exact:
  \<open>block_count * BLOCK_LEN\<close> is the length of the key, with no remainder.
\<close>

theorem block_count_exact:
  assumes "SigningKey_init trytes w0 = (Inr self, w)"
  shows "block_count self w * BLOCK_LEN = len self w \<and> len self w mod BLOCK_LEN = 0
       \<and> len self w = length trytes"
proof -
  note k = SigningKey_init_Inr(3,4) [OF assms]
  have "length trytes div BLOCK_LEN * BLOCK_LEN + length trytes mod BLOCK_LEN = length trytes"
    by (rule div_mult_mod_eq)
  with k show ?thesis
    by (simp add: block_count_def len_def)
qed

theorem block_count_exact_witness:
  "SigningKey_init one_block empty_world = (Inr 0, key_world)
   \<and> block_count 0 key_world * BLOCK_LEN = len 0 key_world
   \<and> len 0 key_world = 2187"
  using block_count_exact [OF one_block_init] one_block_init
  by (simp add: one_block_def BLOCK_LEN_def)

lemma key_trits_mod:
  "length (key_trits trytes) mod (BLOCK_LEN * 3) = 3 * (length trytes mod BLOCK_LEN)"
proof -
  have "3 * length trytes mod (3 * BLOCK_LEN) = 3 * (length trytes mod BLOCK_LEN)"
    by (rule mult_mod_right [symmetric])
  moreover have "BLOCK_LEN * 3 = 3 * BLOCK_LEN"
    by (rule mult.commute)
  ultimately show ?thesis
    by (simp only: key_trits_length)
qed

text \<open>
  C3: the construction of a SigningKey raises if and only if the length of the input in
  trits is not divisible by \<open>BLOCK_LEN * 3\<close>, which is the same as the length in
  trytes not being divisible by 2187. The exception is the ValueError of the source,
  the validation error of the specification. An input of \<open>BLOCK_LEN - 1\<close> trytes
  fails; every input whose length is a multiple of \<open>BLOCK_LEN\<close> succeeds, and the
  buffer is stored as it was given.
\<close>

theorem SigningKey_init_raises:
  "((\<exists>e. fst (SigningKey_init trytes w) = Inl e) \<longleftrightarrow>
      length (key_trits trytes) mod (BLOCK_LEN * 3) \<noteq> 0)
   \<and> (length (key_trits trytes) mod (BLOCK_LEN * 3) \<noteq> 0 \<longleftrightarrow> length trytes mod 2187 \<noteq> 0)
   \<and> (\<forall>e. fst (SigningKey_init trytes w) = Inl e \<longrightarrow> e = ValueError)
   \<and> (length trytes = BLOCK_LEN - 1 \<longrightarrow> fst (SigningKey_init trytes w) = Inl ValueError)
   \<and> (\<forall>k. length trytes = k * BLOCK_LEN \<longrightarrow>
         SigningKey_init trytes w =
           (Inr (length (key_store w)), w\<lparr>key_store := key_store w @ [trytes]\<rparr>)
         \<and> key_store (snd (SigningKey_init trytes w)) ! length (key_store w) = trytes)"
proof -
  have "(length (key_trits trytes) mod (BLOCK_LEN * 3) \<noteq> 0) = (length trytes mod BLOCK_LEN \<noteq> 0)"
    by (simp add: key_trits_mod)
  then show ?thesis
    by (auto simp add: SigningKey_init_eq BLOCK_LEN_def)
qed

theorem SigningKey_init_raises_witness:
  "fst (SigningKey_init (replicate 2186 (0, 0, 0)) empty_world) = Inl ValueError
   \<and> SigningKey_init (replicate (2 * BLOCK_LEN) (0, 0, 0)) empty_world =
       (Inr 0, empty_world\<lparr>key_store := [replicate (2 * BLOCK_LEN) (0, 0, 0)]\<rparr>)"
  using SigningKey_init_raises [of "replicate 2186 (0, 0, 0)" empty_world]
    SigningKey_init_raises [of "replicate (2 * BLOCK_LEN) (0, 0, 0)" empty_world]
  by (simp add: BLOCK_LEN_def empty_world_def)

text \<open>
  C9: the construction of a SigningKey from no trytes at all succeeds, the key has
  \<open>block_count = 0\<close>, and \<open>get_digest_trits\<close> returns for it a list of exactly
  \<open>HASH_LENGTH\<close> zero trits: the loop over the blocks is never entered, and the list
  \<open>digest\<close> is returned as it was initialised.
\<close>

theorem empty_key_digest:
  "SigningKey_init [] w0 = (Inr (length (key_store w0)), w0\<lparr>key_store := key_store w0 @ [[]]\<rparr>)
   \<and> block_count (length (key_store w0)) (w0\<lparr>key_store := key_store w0 @ [[]]\<rparr>) = 0
   \<and> digest_trits c (length (key_store w0)) (w0\<lparr>key_store := key_store w0 @ [[]]\<rparr>) =
       replicate HASH_LENGTH 0
   \<and> length (digest_trits c (length (key_store w0)) (w0\<lparr>key_store := key_store w0 @ [[]]\<rparr>)) =
       HASH_LENGTH"
  by (simp add: SigningKey_init_eq block_count_def len_def digest_trits_value digest_value_empty)

section \<open>Random seeds\<close>

lemma from_bytes_length: "length (from_bytes enc bs) = 2 * length bs"
  by (induction bs) (simp_all add: from_bytes_def)

lemma byte_count_exact:
  assumes "\<bar>n\<bar> \<le> 2 ^ 53"
  shows "byte_count n = Inr \<lceil>(of_int n :: rat) / 2\<rceil>"
proof -
  consider "\<bar>n\<bar> < 2 ^ 53" | "n = 2 ^ 53" | "n = - (2 ^ 53)"
    using assms by linarith
  then show ?thesis
  proof cases
    case 1
    then show ?thesis by (simp add: byte_count_def true_divide_by_2_def)
  next
    case 2
    show ?thesis unfolding 2 by code_simp
  next
    case 3
    show ?thesis unfolding 3 by code_simp
  qed
qed

lemma ceiling_half_bounds: "2 * \<lceil>(of_int n :: rat) / 2\<rceil> \<ge> n"
proof -
  have "(of_int n :: rat) / 2 \<le> of_int \<lceil>(of_int n :: rat) / 2\<rceil>"
    by (rule le_of_int_ceiling)
  then have "(of_int n :: rat) \<le> 2 * of_int \<lceil>(of_int n :: rat) / 2\<rceil>"
    by linarith
  then have "(of_int n :: rat) \<le> of_int (2 * \<lceil>(of_int n :: rat) / 2\<rceil>)"
    by simp
  then show ?thesis
    by (simp only: of_int_le_iff)
qed

text \<open>
  Where the float quotient \<open>length / 2\<close> is exact, \<open>Seed.random\<close> asks the entropy source
  for exactly \<open>ceil(length / 2)\<close> bytes and returns the expansion of the bytes that the
  source returns, two trytes for each byte; when the source returns as many bytes as it
  was asked for, the length of the result in trytes is \<open>2 * ceil(length / 2)\<close>, which is
  even and at least \<open>length\<close>. The only failure is a failure of the source.
\<close>

lemma random_exact:
  assumes "\<bar>n\<bar> \<le> 2 ^ 53"
  shows "byte_count n = Inr \<lceil>(of_int n :: rat) / 2\<rceil>
    \<and> random enc n source =
        (case source \<lceil>(of_int n :: rat) / 2\<rceil> of
           Inl e \<Rightarrow> Inl e | Inr bs \<Rightarrow> Inr (from_bytes enc bs))
    \<and> (\<forall>bs. source \<lceil>(of_int n :: rat) / 2\<rceil> = Inr bs
           \<and> int (length bs) = \<lceil>(of_int n :: rat) / 2\<rceil> \<longrightarrow>
         random enc n source = Inr (from_bytes enc bs)
         \<and> int (length (from_bytes enc bs)) = 2 * \<lceil>(of_int n :: rat) / 2\<rceil>
         \<and> even (length (from_bytes enc bs))
         \<and> n \<le> int (length (from_bytes enc bs)))
    \<and> (\<forall>e. random enc n source = Inl e \<longrightarrow> source \<lceil>(of_int n :: rat) / 2\<rceil> = Inl e)"
proof -
  note bc = byte_count_exact [OF assms]
  have r: "random enc n source =
        (case source \<lceil>(of_int n :: rat) / 2\<rceil> of
           Inl e \<Rightarrow> Inl e | Inr bs \<Rightarrow> Inr (from_bytes enc bs))"
    by (simp add: random_def bc)
  have "\<And>bs. int (length bs) = \<lceil>(of_int n :: rat) / 2\<rceil> \<Longrightarrow> n \<le> int (length (from_bytes enc bs))"
    using ceiling_half_bounds [of n] by (simp add: from_bytes_length)
  then show ?thesis
    using bc r by (auto simp add: from_bytes_length split: sum.splits)
qed

lemma random_81:
  "\<bar>81\<bar> \<le> (2 ^ 53 :: int)
   \<and> byte_count 81 = Inr 41
   \<and> zero_source 41 = Inr (replicate 41 0)
   \<and> random toy_enc 81 zero_source = Inr (from_bytes toy_enc (replicate 41 0))
   \<and> length (from_bytes toy_enc (replicate 41 0)) = 82"
proof -
  have h: "\<bar>81\<bar> \<le> (2 ^ 53 :: int)" by simp
  have c: "\<lceil>(81 :: rat) / 2\<rceil> = 41" by code_simp
  show ?thesis
    using random_exact [OF h, of toy_enc zero_source] h
    by (simp add: c zero_source_def from_bytes_length)
qed

text \<open>
  C6: for every \<open>min_length\<close>, \<open>Seed.random\<close> asks the entropy source for exactly
  \<open>ceil(min_length / 2)\<close> bytes and returns the expansion of exactly those bytes, two
  trytes for each byte; the length of the result in trytes is
  \<open>2 * ceil(min_length / 2)\<close>, which is even and at least \<open>min_length\<close>; no lower bound on
  \<open>min_length\<close> is enforced. The code means to do this, and its docstring calls the
  parameter the minimum number of trytes to generate, but it takes the ceiling of a
  float: at \<open>min_length = 2 ^ 53 + 1\<close> the quotient \<open>2 ^ 52 + 1 / 2\<close> is not a double and
  is rounded to \<open>2 ^ 52\<close>. The source is asked for \<open>2 ^ 52\<close> bytes, not for
  \<open>ceil(min_length / 2) = 2 ^ 52 + 1\<close>; a source that answers only a request for
  \<open>2 ^ 52 + 1\<close> bytes is never asked for them; and with a source that returns as many
  bytes as it is asked for, the result has \<open>2 ^ 53\<close> trytes, fewer than \<open>min_length\<close>.
\<close>

theorem random_rounds_down:
  "byte_count (2 ^ 53 + 1) = Inr (2 ^ 52)
   \<and> \<lceil>(of_int (2 ^ 53 + 1) :: rat) / 2\<rceil> = 2 ^ 52 + 1
   \<and> random toy_enc (2 ^ 53 + 1)
        (\<lambda>k. if k = 2 ^ 52 + 1 then Inr [] else Inl EntropySourceFailure) =
       Inl EntropySourceFailure
   \<and> random toy_enc (2 ^ 53 + 1) zero_source =
       Inr (from_bytes toy_enc (replicate (nat (2 ^ 52)) 0))
   \<and> int (length (from_bytes toy_enc (replicate (nat (2 ^ 52)) 0))) = 2 ^ 53
   \<and> int (length (from_bytes toy_enc (replicate (nat (2 ^ 52)) 0))) < 2 ^ 53 + 1"
proof -
  have a: "byte_count (2 ^ 53 + 1) = Inr (2 ^ 52)" by code_simp
  have b: "\<lceil>(of_int (2 ^ 53 + 1) :: rat) / 2\<rceil> = 2 ^ 52 + 1" by code_simp
  have c: "random toy_enc (2 ^ 53 + 1)
        (\<lambda>k. if k = 2 ^ 52 + 1 then Inr [] else Inl EntropySourceFailure) =
       Inl EntropySourceFailure"
    by (simp only: random_def a sum.case) simp
  have d: "random toy_enc (2 ^ 53 + 1) zero_source =
       Inr (from_bytes toy_enc (replicate (nat (2 ^ 52)) 0))"
    by (simp only: random_def a sum.case zero_source_def)
  have e: "int (length (from_bytes toy_enc (replicate (nat (2 ^ 52)) 0))) = 2 ^ 53"
    by (simp add: from_bytes_length)
  have f: "int (length (from_bytes toy_enc (replicate (nat (2 ^ 52)) 0))) < 2 ^ 53 + 1"
    by (simp only: e)
  show ?thesis
    by (intro conjI a b c d e f)
qed

lemma toy_curl_width: "curl_width toy_curl"
  by (simp add: curl_width_def toy_curl_def)

lemma one_block_count: "block_count 0 key_world = 1"
  by (simp add: block_count_def len_def key_world_def one_block_def BLOCK_LEN_def)

lemma digest_trits_init:
  assumes "SigningKey_init trytes w0 = (Inr self, w)"
  shows "digest_trits c self w = digest_value c trytes"
  by (simp add: digest_trits_value SigningKey_init_Inr(3) [OF assms])

lemma block_count_init:
  assumes "SigningKey_init trytes w0 = (Inr self, w)"
  shows "block_count self w = length trytes div BLOCK_LEN"
  by (simp add: block_count_def len_def SigningKey_init_Inr(3) [OF assms])

lemma spec_round_eq: "spec_round c = curl_hash c"
  by (rule ext) (simp add: spec_round_def curl_hash_def)

lemma spec_fragment_eq: "fragment c bt = (\<lambda>j. (spec_round c ^^ 26) (spec_fragment bt j))"
  by (rule ext) (simp add: fragment_def chain_def spec_round_eq spec_fragment_def py_slice_def)

lemma spec_block_eq: "block_of (BLOCK_LEN * 3) raw i = spec_block raw i"
  by (simp add: block_of_def spec_block_def py_slice_def)

lemma spec_block_digest_eq:
  "curl_width c \<Longrightarrow> block_digest c (BLOCK_LEN * 3) bt = spec_block_digest c bt"
  by (simp add: block_digest_concat spec_block_digest_def spec_key_fragment_def spec_round_eq
      spec_fragment_eq)

lemma concat_slices: "concat (map (\<lambda>j. take k (drop (j * k) xs)) [0..<n]) = take (n * k) xs"
proof (induction n)
  case 0
  show ?case by simp
next
  case (Suc n)
  have "take (n * k + k) xs = take (n * k) xs @ take k (drop (n * k) xs)"
    by (rule take_add)
  then have "take (k + n * k) xs = take (n * k) xs @ take k (drop (n * k) xs)"
    by (simp only: add.commute)
  then show ?case
    using Suc by simp
qed

lemma digest_segment:
  assumes "curl_width c" and "i < length trytes div BLOCK_LEN"
  shows "take HASH_LENGTH (drop (i * HASH_LENGTH) (digest_value c trytes)) =
     block_digest c (BLOCK_LEN * 3) (block_of (BLOCK_LEN * 3) (key_trits trytes) i)"
proof -
  have pos: "0 < length trytes div BLOCK_LEN"
    using assms(2) by simp
  show ?thesis
    unfolding digest_value_blocks [OF assms(1) pos]
    by (rule segment_of_concat [OF block_digest_length [OF assms(1)] assms(2)])
qed

section \<open>The digest\<close>

text \<open>
  C1: for every SigningKey whose construction succeeded and every block \<open>i\<close>, counted
  from 0, \<open>get_digest_trits\<close> computes the digest segment of block \<open>i\<close> by the schedule of
  three levels. The trits of the block are split into 27 fragments of \<open>HASH_LENGTH\<close>
  trits that follow each other; each fragment is replaced by the result of 26 chained
  rounds, where a round makes a new sponge, absorbs the buffer and squeezes
  \<open>HASH_LENGTH\<close> trits back into the buffer; the 27 results stand at the positions
  \<open>j * HASH_LENGTH\<close> to \<open>(j + 1) * HASH_LENGTH\<close> of a key fragment of \<open>block_size\<close> trits;
  and one more new sponge absorbs the whole key fragment and squeezes \<open>HASH_LENGTH\<close>
  trits, the digest segment of the block, found at the positions \<open>i * HASH_LENGTH\<close> to
  \<open>(i + 1) * HASH_LENGTH\<close> of the list returned. The sponge has the fixed output width.
\<close>

theorem digest_schedule:
  assumes "SigningKey_init trytes w0 = (Inr self, w)" and "curl_width c"
    and "i < block_count self w" and "block = spec_block (key_trits trytes) i"
  shows "length block = BLOCK_LEN * 3
    \<and> concat (map (spec_fragment block) [0..<27]) = block
    \<and> (\<forall>j<27. length (spec_fragment block j) = HASH_LENGTH)
    \<and> length (spec_key_fragment c block) = BLOCK_LEN * 3
    \<and> (\<forall>j<27. take HASH_LENGTH (drop (j * HASH_LENGTH) (spec_key_fragment c block)) =
          (spec_round c ^^ 26) (spec_fragment block j))
    \<and> take HASH_LENGTH (drop (i * HASH_LENGTH) (digest_trits c self w)) = spec_block_digest c block
    \<and> length (spec_block_digest c block) = HASH_LENGTH"
proof -
  have i: "i < length trytes div BLOCK_LEN"
    using assms(3) by (simp add: block_count_init [OF assms(1)])
  have len: "length block = BLOCK_LEN * 3"
    using block_of_length [OF i] by (simp add: assms(4) spec_block_eq)
  have len27: "length block = 27 * HASH_LENGTH"
    using len by (simp add: block_size_fragments)
  have cc: "concat (map (spec_fragment block) [0..<27]) = block"
    unfolding spec_fragment_def concat_slices by (simp add: len27)
  have w: "\<And>xs. length ((spec_round c ^^ 26) xs) = HASH_LENGTH"
    using chain_length [OF assms(2)] by (simp add: chain_def spec_round_eq)
  have fl: "\<forall>j<27. length (spec_fragment block j) = HASH_LENGTH"
  proof (intro allI impI)
    fix j :: nat
    assume "j < 27"
    then have "Suc j \<le> 27" by simp
    then have "Suc j * HASH_LENGTH \<le> 27 * HASH_LENGTH" by (rule mult_le_mono1)
    then have le: "HASH_LENGTH + j * HASH_LENGTH \<le> 27 * HASH_LENGTH" by (simp only: mult_Suc)
    show "length (spec_fragment block j) = HASH_LENGTH"
      by (simp only: spec_fragment_def length_take length_drop len27) (insert le, linarith)
  qed
  have kl: "length (spec_key_fragment c block) = BLOCK_LEN * 3"
    unfolding spec_key_fragment_def block_size_fragments
    by (rule length_concat_upt) (rule w)
  have ks: "\<forall>j<27. take HASH_LENGTH (drop (j * HASH_LENGTH) (spec_key_fragment c block)) =
          (spec_round c ^^ 26) (spec_fragment block j)"
    unfolding spec_key_fragment_def
    using segment_of_concat [of "\<lambda>j. (spec_round c ^^ 26) (spec_fragment block j)" HASH_LENGTH _ 27, OF w]
    by blast
  have seg: "take HASH_LENGTH (drop (i * HASH_LENGTH) (digest_trits c self w)) = spec_block_digest c block"
    by (simp add: digest_trits_init [OF assms(1)] digest_segment [OF assms(2) i]
        spec_block_digest_eq [OF assms(2)] spec_block_eq assms(4))
  have dl: "length (spec_block_digest c block) = HASH_LENGTH"
    using curl_hash_length [OF assms(2)] by (simp add: spec_block_digest_def spec_round_eq)
  show ?thesis
    by (intro conjI len cc fl kl ks seg dl)
qed

theorem digest_schedule_witness:
  "SigningKey_init one_block empty_world = (Inr 0, key_world) \<and> curl_width toy_curl
   \<and> 0 < block_count 0 key_world
   \<and> take HASH_LENGTH (drop (0 * HASH_LENGTH) (digest_trits toy_curl 0 key_world)) =
       spec_block_digest toy_curl (spec_block (key_trits one_block) 0)
   \<and> length (spec_block (key_trits one_block) 0) = BLOCK_LEN * 3"
proof -
  have b: "0 < block_count 0 key_world"
    by (simp add: one_block_count)
  from digest_schedule [OF one_block_init toy_curl_width b refl] one_block_init toy_curl_width b
  show ?thesis by blast
qed


text \<open>
  C2, as amended: for every SigningKey whose construction succeeded and that has at
  least one block, the list returned by \<open>get_digest_trits\<close> has
  \<open>block_count * HASH_LENGTH\<close> trits, and the digest segment of block \<open>i\<close> stands at the
  positions \<open>i * HASH_LENGTH\<close> to \<open>(i + 1) * HASH_LENGTH\<close> of it: the segments follow each
  other in the order of the blocks.
\<close>

theorem digest_length:
  assumes "SigningKey_init trytes w0 = (Inr self, w)" and "curl_width c"
    and "0 < block_count self w"
  shows "length (digest_trits c self w) = block_count self w * HASH_LENGTH
    \<and> digest_trits c self w =
        concat (map (\<lambda>i. block_digest c (BLOCK_LEN * 3) (block_of (BLOCK_LEN * 3) (key_trits trytes) i))
          [0..<block_count self w])
    \<and> (\<forall>i<block_count self w.
          py_slice (digest_trits c self w) (i * HASH_LENGTH) (i * HASH_LENGTH + HASH_LENGTH) =
          block_digest c (BLOCK_LEN * 3) (block_of (BLOCK_LEN * 3) (key_trits trytes) i))"
proof -
  note bc = block_count_init [OF assms(1)]
  note dt = digest_trits_init [OF assms(1)]
  have pos: "0 < length trytes div BLOCK_LEN"
    using assms(3) by (simp add: bc)
  have cat: "digest_trits c self w =
        concat (map (\<lambda>i. block_digest c (BLOCK_LEN * 3) (block_of (BLOCK_LEN * 3) (key_trits trytes) i))
          [0..<block_count self w])"
    by (simp only: dt bc digest_value_blocks [OF assms(2) pos])
  have len: "length (digest_trits c self w) = block_count self w * HASH_LENGTH"
    unfolding cat by (rule length_concat_upt) (rule block_digest_length [OF assms(2)])
  have seg: "\<forall>i<block_count self w.
          py_slice (digest_trits c self w) (i * HASH_LENGTH) (i * HASH_LENGTH + HASH_LENGTH) =
          block_digest c (BLOCK_LEN * 3) (block_of (BLOCK_LEN * 3) (key_trits trytes) i)"
    using digest_segment [OF assms(2)] by (simp add: py_slice_def dt bc)
  show ?thesis
    by (intro conjI len cat seg)
qed

theorem digest_length_witness:
  "SigningKey_init one_block empty_world = (Inr 0, key_world) \<and> curl_width toy_curl
   \<and> 0 < block_count 0 key_world
   \<and> length (digest_trits toy_curl 0 key_world) = 243"
proof -
  have b: "0 < block_count 0 key_world"
    by (simp add: one_block_count)
  from digest_length [OF one_block_init toy_curl_width b]
  have "length (digest_trits toy_curl 0 key_world) = block_count 0 key_world * HASH_LENGTH"
    by blast
  then have "length (digest_trits toy_curl 0 key_world) = 243"
    by (simp add: one_block_count HASH_LENGTH_def)
  with one_block_init toy_curl_width b show ?thesis
    by blast
qed

text \<open>
  The claim as it was stated, for every valid key, fails for the key without trytes:
  its construction succeeds, it has no block, and the list returned has
  \<open>HASH_LENGTH = 243\<close> trits, not \<open>0 * HASH_LENGTH\<close>.
\<close>

theorem digest_length_counterexample:
  "SigningKey_init [] empty_world = (Inr 0, empty_world\<lparr>key_store := [[]]\<rparr>)
   \<and> curl_width toy_curl
   \<and> block_count 0 (empty_world\<lparr>key_store := [[]]\<rparr>) * HASH_LENGTH = 0
   \<and> length (digest_trits toy_curl 0 (empty_world\<lparr>key_store := [[]]\<rparr>)) = 243
   \<and> length (digest_trits toy_curl 0 (empty_world\<lparr>key_store := [[]]\<rparr>)) \<noteq>
       block_count 0 (empty_world\<lparr>key_store := [[]]\<rparr>) * HASH_LENGTH"
  by (simp add: SigningKey_init_def TryteString_init_def empty_world_def toy_curl_width
      block_count_def len_def digest_trits_def get_digest_trits_def as_trits_def new_list_def
      key_trits_def HASH_LENGTH_def BLOCK_LEN_def)

text \<open>
  C4: for every two signing keys \<open>A\<close> and \<open>B\<close> of one block each, the digest of the key
  of two blocks built from \<open>A\<close> followed by \<open>B\<close> is the digest of \<open>A\<close> followed by the
  digest of \<open>B\<close>: its first \<open>HASH_LENGTH\<close> trits are the digest of \<open>A\<close>, its second
  \<open>HASH_LENGTH\<close> trits are the digest of \<open>B\<close>.
\<close>

theorem two_block_digest:
  assumes "length A = BLOCK_LEN" and "length B = BLOCK_LEN"
    and "SigningKey_init A wa0 = (Inr a, wa)" and "SigningKey_init B wb0 = (Inr b, wb)"
    and "SigningKey_init (A @ B) wab0 = (Inr ab, wab)" and "curl_width c"
  shows "block_count ab wab = 2
    \<and> digest_trits c ab wab = digest_trits c a wa @ digest_trits c b wb
    \<and> take HASH_LENGTH (digest_trits c ab wab) = digest_trits c a wa
    \<and> take HASH_LENGTH (drop HASH_LENGTH (digest_trits c ab wab)) = digest_trits c b wb
    \<and> length (digest_trits c ab wab) = 2 * HASH_LENGTH"
proof -
  let ?bs = "BLOCK_LEN * 3"
  have pos: "0 < BLOCK_LEN"
    by (simp add: BLOCK_LEN_def)
  have la: "length (key_trits A) = ?bs" and lb: "length (key_trits B) = ?bs"
    by (simp_all add: key_trits_length assms(1,2))
  have one: "\<And>X. length X = BLOCK_LEN \<Longrightarrow>
      digest_value c X = block_digest c ?bs (key_trits X)"
  proof -
    fix X :: "tryte list"
    assume X: "length X = BLOCK_LEN"
    then have d: "length X div BLOCK_LEN = Suc 0"
      using pos by simp
    have "0 < length X div BLOCK_LEN"
      by (simp add: d)
    from digest_value_blocks [OF assms(6) this]
    have "digest_value c X =
        concat (map (\<lambda>i. block_digest c ?bs (block_of ?bs (key_trits X) i)) [0..<Suc 0])"
      by (simp only: d)
    then show "digest_value c X = block_digest c ?bs (key_trits X)"
      by (simp add: block_of_def py_slice_def key_trits_length X)
  qed
  have two: "length (A @ B) div BLOCK_LEN = Suc (Suc 0)"
    using pos by (simp add: assms(1,2))
  have "0 < length (A @ B) div BLOCK_LEN"
    by (simp only: two)
  from digest_value_blocks [OF assms(6) this]
  have "digest_value c (A @ B) =
      concat (map (\<lambda>i. block_digest c ?bs (block_of ?bs (key_trits (A @ B)) i)) [0..<Suc (Suc 0)])"
    by (simp only: two)
  then have ab: "digest_value c (A @ B) =
      block_digest c ?bs (key_trits A) @ block_digest c ?bs (key_trits B)"
    by (simp add: block_of_def py_slice_def key_trits_append la lb)
  have cnt: "block_count ab wab = 2"
    using two by (simp add: block_count_init [OF assms(5)])
  have cat: "digest_trits c ab wab = digest_trits c a wa @ digest_trits c b wb"
    by (simp add: digest_trits_init [OF assms(3)] digest_trits_init [OF assms(4)]
        digest_trits_init [OF assms(5)] ab one assms(1,2))
  have wa: "length (digest_trits c a wa) = HASH_LENGTH"
    by (simp add: digest_trits_init [OF assms(3)] one assms(1) block_digest_length [OF assms(6)])
  have wb: "length (digest_trits c b wb) = HASH_LENGTH"
    by (simp add: digest_trits_init [OF assms(4)] one assms(2) block_digest_length [OF assms(6)])
  show ?thesis
    by (simp add: cnt cat wa wb)
qed

theorem two_block_digest_witness:
  "length one_block = BLOCK_LEN
   \<and> SigningKey_init one_block empty_world = (Inr 0, key_world)
   \<and> SigningKey_init (one_block @ one_block) key_world =
       (Inr 1, key_world\<lparr>key_store := [one_block, one_block @ one_block]\<rparr>)
   \<and> curl_width toy_curl
   \<and> digest_trits toy_curl 1 (key_world\<lparr>key_store := [one_block, one_block @ one_block]\<rparr>) =
       digest_trits toy_curl 0 key_world @ digest_trits toy_curl 0 key_world"
proof -
  have l: "length one_block = BLOCK_LEN"
    by (simp add: one_block_def)
  have i2: "SigningKey_init (one_block @ one_block) key_world =
       (Inr 1, key_world\<lparr>key_store := [one_block, one_block @ one_block]\<rparr>)"
    by (simp add: SigningKey_init_eq l key_world_def)
  from two_block_digest [OF l l one_block_init one_block_init i2 toy_curl_width]
    l one_block_init i2 toy_curl_width
  show ?thesis by blast
qed

text \<open>
  C5: \<open>get_digest_trits\<close> is deterministic. Two keys with the same trits, built in any
  two stores, have the same digest, and a second call on the same key returns the same
  digest as the first: the result depends on the trits of the key and on nothing else
  in the store.
\<close>

theorem digest_deterministic:
  assumes "SigningKey_init ta wa0 = (Inr a, wa)" and "SigningKey_init tb wb0 = (Inr b, wb)"
    and "key_trits ta = key_trits tb"
  shows "digest_trits c a wa = digest_trits c b wb
    \<and> digest_trits c a (snd (get_digest_trits c a wa)) = digest_trits c a wa"
proof -
  have "3 * length ta = 3 * length tb"
    using assms(3) key_trits_length [of ta] key_trits_length [of tb] by simp
  then have "length ta = length tb"
    by simp
  then have "digest_value c ta = digest_value c tb"
    by (simp add: digest_value_def assms(3))
  then show ?thesis
    by (simp add: digest_trits_value get_digest_trits_key
        SigningKey_init_Inr(3) [OF assms(1)] SigningKey_init_Inr(3) [OF assms(2)])
qed

theorem digest_deterministic_witness:
  "SigningKey_init one_block empty_world = (Inr 0, key_world)
   \<and> SigningKey_init one_block key_world = (Inr 1, key_world\<lparr>key_store := [one_block, one_block]\<rparr>)
   \<and> digest_trits toy_curl 0 key_world =
       digest_trits toy_curl 1 (key_world\<lparr>key_store := [one_block, one_block]\<rparr>)
   \<and> digest_trits toy_curl 0 (snd (get_digest_trits toy_curl 0 key_world)) =
       digest_trits toy_curl 0 key_world"
proof -
  have i2: "SigningKey_init one_block key_world =
       (Inr 1, key_world\<lparr>key_store := [one_block, one_block]\<rparr>)"
    by (simp add: SigningKey_init_eq key_world_def one_block_def)
  from digest_deterministic [OF one_block_init i2 refl, of toy_curl] one_block_init i2
  show ?thesis by blast
qed

text \<open>
  C8: for every SigningKey whose construction succeeded, \<open>get_digest_trits\<close> returns
  (the model is a total function, its loops run over finite ranges) and makes exactly
  \<open>block_count * (27 * 26 + 1)\<close> sponges. The log of the calls shows for each of them
  its construction, then one absorb, then one squeeze, and no later call: no sponge is
  used again in another round, fragment or block, and no sponge that existed before
  the call is used at all.
\<close>

theorem sponge_usage:
  assumes "SigningKey_init trytes w0 = (Inr self, w)"
  shows "sponge_calls (snd (get_digest_trits c self w)) =
      sponge_calls w @
      concat (map (\<lambda>s. [New s, Absorb s, Squeeze s])
        [length (sponge_store w)..<length (sponge_store w) + block_count self w * (27 * 26 + 1)])
    \<and> length (sponge_store (snd (get_digest_trits c self w))) =
        length (sponge_store w) + block_count self w * (27 * 26 + 1)"
  by (simp add: get_digest_trits_calls get_digest_trits_sponges uses_def mult.commute)

theorem sponge_usage_witness:
  "SigningKey_init one_block empty_world = (Inr 0, key_world)
   \<and> sponge_calls (snd (get_digest_trits toy_curl 0 key_world)) =
       concat (map (\<lambda>s. [New s, Absorb s, Squeeze s]) [0..<703])
   \<and> length (sponge_store (snd (get_digest_trits toy_curl 0 key_world))) = 703"
proof -
  have e: "sponge_store key_world = []" "sponge_calls key_world = []"
    by (simp_all add: key_world_def)
  show ?thesis
    using sponge_usage [OF one_block_init, of toy_curl] one_block_init
    by (simp add: one_block_count e)
qed

text \<open>
  C10: \<open>get_digest_trits\<close> does not change the SigningKey it is called on. The tryte
  buffers of all keys are the same after the call as before, also after a second call;
  the trits come from a new list made by \<open>as_trits\<close>, which still holds the trits of the
  key when the call returns; and every list that existed before the call is untouched.
\<close>

theorem key_unchanged:
  assumes "SigningKey_init trytes w0 = (Inr self, w)"
  shows "key_store (snd (get_digest_trits c self w)) = key_store w
    \<and> key_store (snd (get_digest_trits c self w)) ! self = trytes
    \<and> take (length (list_store w)) (list_store (snd (get_digest_trits c self w))) = list_store w
    \<and> list_store (snd (get_digest_trits c self w)) ! length (list_store w) = key_trits trytes
    \<and> key_store (snd (get_digest_trits c self (snd (get_digest_trits c self w)))) = key_store w"
proof -
  let ?L = "length (list_store w)"
  let ?ls' = "list_store (snd (get_digest_trits c self w))"
  note k = SigningKey_init_Inr(3) [OF assms]
  note t = get_digest_trits_list(2) [where c = c and self = self and w = w]
  have "take ?L ?ls' = take ?L (take (?L + 2) ?ls')"
    by simp
  then have frame: "take ?L ?ls' = list_store w"
    by (simp only: t) simp
  have "?ls' ! ?L = take (?L + 2) ?ls' ! ?L"
    by simp
  then have copy: "?ls' ! ?L = key_trits trytes"
    by (simp only: t) (simp add: k)
  show ?thesis
    by (simp add: get_digest_trits_key k frame copy)
qed

theorem key_unchanged_witness:
  "SigningKey_init one_block empty_world = (Inr 0, key_world)
   \<and> key_store (snd (get_digest_trits toy_curl 0 key_world)) = [one_block]
   \<and> list_store (snd (get_digest_trits toy_curl 0 key_world)) ! 0 = key_trits one_block"
proof -
  have e: "key_store key_world = [one_block]" "list_store key_world = []"
    by (simp_all add: key_world_def)
  show ?thesis
    using key_unchanged [OF one_block_init, of toy_curl] one_block_init
    by (simp add: e)
qed

end
